theory Spec2Isabelle
  imports Main
begin

section \<open>Data model of \<^verbatim>\<open>src/github.ts\<close>\<close>

text \<open>
  The interfaces of the source become records with the source's field names.
  \<^verbatim>\<open>Issue.labels\<close> is declared as an object \<^verbatim>\<open>{ nodes: Array<{ name: string }> }\<close>;
  the two anonymous object types get the record names \<open>Labels\<close> and \<open>Label\<close>.
  Both \<open>Labels\<close> and \<open>Search\<close> have a field \<open>nodes\<close>; the unqualified name is the
  one of \<open>Search\<close>, the other is written \<open>Labels.nodes\<close>.
\<close>

record Label =
  name :: string

record Labels =
  nodes :: "Label list"

record Issue =
  title :: string
  url :: string
  labels :: Labels

record NameWithOwner =
  owner :: string
  repo :: string

record PageInfo =
  endCursor :: string
  hasNextPage :: bool

record Search =
  pageInfo :: PageInfo
  nodes :: "Issue list"

record QueryResponse =
  search :: Search

text \<open>\<^verbatim>\<open>type GraphQlQueryResponseData = QueryResponse | null\<close>\<close>

type_synonym GraphQlQueryResponseData = "QueryResponse option"

text \<open>The object \<^verbatim>\<open>{ cursor, searchQuery: queryText }\<close> handed to \<^verbatim>\<open>client.graphql\<close>.\<close>

record Variables =
  cursor :: "string option"
  searchQuery :: string

text \<open>
  An awaited call either rejects with some thrown value (\<open>Inl\<close>) or resolves to a
  response or to \<^verbatim>\<open>null\<close> (\<open>Inr\<close>).
\<close>

type_synonym 'e settled = "'e + GraphQlQueryResponseData"

text \<open>
  \<^verbatim>\<open>client.graphql(query, \<dots>)\<close> with the fixed query document of the source already
  supplied: a call takes the variables and the state \<open>'s\<close> of the world outside the
  function (the remote service), and gives the settled outcome and the new state of
  the world. \<open>None\<close> is a promise that never settles, so that the \<^verbatim>\<open>await\<close> never
  resumes.
\<close>

type_synonym ('s, 'e) GitHubClient = "Variables \<Rightarrow> 's \<Rightarrow> ('e settled \<times> 's) option"

text \<open>The local variables \<^verbatim>\<open>cursor\<close>, \<^verbatim>\<open>hasNextPage\<close> and \<^verbatim>\<open>issues\<close> of the function.\<close>

type_synonym locals = "string option \<times> bool \<times> Issue list"

section \<open>The functions\<close>

definition formatNameWithOwner :: "NameWithOwner \<Rightarrow> string" where
  "formatNameWithOwner nwo = owner nwo @ ''/'' @ repo nwo"

text \<open>
  Line 90, the template literal
  \<^verbatim>\<open>`repo:${formatNameWithOwner(context.repo)} ${searchQuery}`\<close>;
  \<open>context_repo\<close> is the ambient \<^verbatim>\<open>github.context.repo\<close>.
\<close>

definition queryText :: "NameWithOwner \<Rightarrow> string \<Rightarrow> string" where
  "queryText context_repo searchQuery' =
     ''repo:'' @ formatNameWithOwner context_repo @ '' '' @ searchQuery'"

text \<open>
  One pass through the body of the \<^verbatim>\<open>while\<close> loop (lines 99 to 112); \<open>qt\<close> is the
  constant \<^verbatim>\<open>queryText\<close>. A rejected call leaves the function at once, with the
  thrown value. The two calls of \<^verbatim>\<open>core.debug\<close> only write to the log of the
  workflow and are left out.
\<close>

definition loop_body ::
  "('s, 'e) GitHubClient \<Rightarrow> string \<Rightarrow> locals \<Rightarrow> 's \<Rightarrow> (('e + locals) \<times> 's) option" where
  "loop_body graphql qt = (\<lambda>(cursor, hasNextPage, issues) s.
     case graphql \<lparr>cursor = cursor, searchQuery = qt\<rparr> s of
       None \<Rightarrow> None
     | Some (Inl err, s') \<Rightarrow> Some (Inl err, s')
     | Some (Inr results, s') \<Rightarrow>
         (case results of
            Some r \<Rightarrow>
              Some (Inr (Some (endCursor (pageInfo (search r))),
                         PageInfo.hasNextPage (pageInfo (search r)),
                         issues @ map (\<lambda>issue. issue) (nodes (search r))), s')
          | None \<Rightarrow> Some (Inr (cursor, False, issues), s')))"

text \<open>
  The loop \<^verbatim>\<open>while (hasNextPage) { \<dots> }\<close>. It need not end (a service may answer
  \<^verbatim>\<open>hasNextPage = true\<close> for ever, or a call may never settle): not returning is
  \<open>None\<close>.
\<close>

partial_function (option) while_hasNextPage ::
  "('s, 'e) GitHubClient \<Rightarrow> string \<Rightarrow> locals \<Rightarrow> 's \<Rightarrow> (('e + locals) \<times> 's) option" where
  "while_hasNextPage graphql qt vars s =
     (if fst (snd vars) then
        (case loop_body graphql qt vars s of
           None \<Rightarrow> None
         | Some (Inl err, s') \<Rightarrow> Some (Inl err, s')
         | Some (Inr vars', s') \<Rightarrow> while_hasNextPage graphql qt vars' s')
      else Some (Inr vars, s))"

text \<open>
  \<^verbatim>\<open>getMatchingIssues(token, searchQuery)\<close>. The ambient \<^verbatim>\<open>github.getOctokit\<close> and
  \<^verbatim>\<open>github.context.repo\<close> are the first two parameters. The result is the thrown
  value or the returned array, with the state of the world after the last call.
\<close>

definition getMatchingIssues ::
  "(string \<Rightarrow> ('s, 'e) GitHubClient) \<Rightarrow> NameWithOwner \<Rightarrow> string \<Rightarrow> string \<Rightarrow> 's
     \<Rightarrow> (('e + Issue list) \<times> 's) option" where
  "getMatchingIssues getOctokit context_repo token searchQuery' s =
     (let client = getOctokit token;
          qt = queryText context_repo searchQuery'
      in case while_hasNextPage client qt (None, True, []) s of
           None \<Rightarrow> None
         | Some (Inl err, s') \<Rightarrow> Some (Inl err, s')
         | Some (Inr (_, _, issues), s') \<Rightarrow> Some (Inr issues, s'))"

section \<open>Observing an execution\<close>

text \<open>
  The first \<open>n\<close> passes of the loop, or all of them when the loop ends earlier: every
  execution, also one that never ends, is described by these prefixes.
\<close>

fun iterations ::
  "nat \<Rightarrow> ('s, 'e) GitHubClient \<Rightarrow> string \<Rightarrow> locals \<Rightarrow> 's \<Rightarrow> (('e + locals) \<times> 's) option" where
  "iterations 0 graphql qt vars s = Some (Inr vars, s)"
| "iterations (Suc n) graphql qt vars s =
     (if fst (snd vars) then
        (case loop_body graphql qt vars s of
           None \<Rightarrow> None
         | Some (Inl err, s') \<Rightarrow> Some (Inl err, s')
         | Some (Inr vars', s') \<Rightarrow> iterations n graphql qt vars' s')
      else Some (Inr vars, s))"

text \<open>The loop is over: a call has thrown, or \<^verbatim>\<open>hasNextPage\<close> is false.\<close>

fun finished :: "('e + locals) \<times> 's \<Rightarrow> bool" where
  "finished (Inl err, s) = True"
| "finished (Inr (c, h, acc), s) = (\<not> h)"

text \<open>
  A client that passes every call on and appends the variables and the outcome of each
  settled call to a log kept beside the state of the world.
\<close>

definition spy ::
  "('s, 'e) GitHubClient \<Rightarrow> ('s \<times> (Variables \<times> 'e settled) list, 'e) GitHubClient" where
  "spy graphql v = (\<lambda>(s, calls).
     case graphql v s of
       None \<Rightarrow> None
     | Some (out, s') \<Rightarrow> Some (out, (s', calls @ [(v, out)])))"

text \<open>
  A simulated remote service: the state of the world is the list of outcomes still to
  come, each call takes the next one. With none left, the call never settles.
\<close>

fun replay :: "('e settled list, 'e) GitHubClient" where
  "replay v [] = None"
| "replay v (out # rest) = Some (out, rest)"

text \<open>The \<^verbatim>\<open>getOctokit\<close> of the simulated service: whatever the token, the client replays.\<close>

definition replay_getOctokit :: "string \<Rightarrow> ('e settled list, 'e) GitHubClient" where
  "replay_getOctokit token = replay"

text \<open>A response after which the loop stops: \<^verbatim>\<open>null\<close>, or a page with no next page.\<close>

fun terminal :: "GraphQlQueryResponseData \<Rightarrow> bool" where
  "terminal None = True"
| "terminal (Some r) = (\<not> hasNextPage (pageInfo (search r)))"

text \<open>The issues carried by a settled call: those of a page, none otherwise.\<close>

fun received :: "'e settled \<Rightarrow> Issue list" where
  "received (Inr (Some r)) = nodes (search r)"
| "received (Inr None) = []"
| "received (Inl err) = []"

text \<open>
  \<^verbatim>\<open>getMatchingIssues\<close> after at most \<open>n\<close> passes of its loop: the local variables
  (or the thrown value) and the state of the world at that point.
\<close>

definition getMatchingIssues_upto ::
  "nat \<Rightarrow> (string \<Rightarrow> ('s, 'e) GitHubClient) \<Rightarrow> NameWithOwner \<Rightarrow> string \<Rightarrow> string \<Rightarrow> 's
     \<Rightarrow> (('e + locals) \<times> 's) option" where
  "getMatchingIssues_upto n getOctokit context_repo token searchQuery' s =
     iterations n (getOctokit token) (queryText context_repo searchQuery')
       (None, True, []) s"

text \<open>
  The invariant of the loop about the cursor, over the log of the calls made so far:
  the first call had no cursor, every later call had the end cursor of the page before
  it, and while the loop goes on the variable \<^verbatim>\<open>cursor\<close> is the end cursor of the
  last page.
\<close>

definition cursor_inv :: "string option \<Rightarrow> bool \<Rightarrow> (Variables \<times> 'e settled) list \<Rightarrow> bool" where
  "cursor_inv c h calls \<longleftrightarrow>
     (calls \<noteq> [] \<longrightarrow> cursor (fst (calls ! 0)) = None) \<and>
     (\<forall>N. Suc N < length calls \<longrightarrow>
        (\<exists>r. snd (calls ! N) = Inr (Some r) \<and>
             cursor (fst (calls ! Suc N)) = Some (endCursor (pageInfo (search r))))) \<and>
     (h \<longrightarrow> (if calls = [] then c = None
           else \<exists>r. snd (last calls) = Inr (Some r) \<and>
                    c = Some (endCursor (pageInfo (search r)))))"

section \<open>The objects at run time\<close>

text \<open>
  TypeScript's types are erased: what the caller gets is a JavaScript value. The values
  needed here are strings, arrays and objects (fields in the order of the interface).
  \<open>Issue_value\<close> is the value of an object of the interface \<^verbatim>\<open>Issue\<close> (lines 9 to 17).
\<close>

datatype js_value =
  JString string
| JArray "js_value list"
| JObject "(string \<times> js_value) list"

definition Label_value :: "Label \<Rightarrow> js_value" where
  "Label_value l = JObject [(''name'', JString (name l))]"

definition Labels_value :: "Labels \<Rightarrow> js_value" where
  "Labels_value ls = JObject [(''nodes'', JArray (map Label_value (Labels.nodes ls)))]"

definition Issue_value :: "Issue \<Rightarrow> js_value" where
  "Issue_value i =
     JObject [(''title'', JString (title i)), (''url'', JString (url i)),
              (''labels'', Labels_value (labels i))]"

text \<open>Reading an attribute of a value; \<open>None\<close> where JavaScript gives \<^verbatim>\<open>undefined\<close>.\<close>

fun attribute :: "js_value \<Rightarrow> string \<Rightarrow> js_value option" where
  "attribute (JObject kvs) k = map_of kvs k"
| "attribute (JString t) k = None"
| "attribute (JArray vs) k = None"

fun is_text :: "js_value \<Rightarrow> bool" where
  "is_text (JString t) = True"
| "is_text (JArray vs) = False"
| "is_text (JObject kvs) = False"

text \<open>An ordered sequence of text values: an array whose elements are all strings.\<close>

fun is_text_sequence :: "js_value \<Rightarrow> bool" where
  "is_text_sequence (JArray vs) = list_all is_text vs"
| "is_text_sequence (JString t) = False"
| "is_text_sequence (JObject kvs) = False"

section \<open>The scenario of the specification\<close>

text \<open>
  Repository \<^verbatim>\<open>org/repo\<close>, empty predicate, two pages: the first with issue A, end
  cursor \<^verbatim>\<open>c1\<close> and a next page, the second with issue B (label \<^verbatim>\<open>bug\<close>) and no next
  page. The scenario leaves the end cursor of the second page open; it is \<^verbatim>\<open>c2\<close> here.
\<close>

definition scenario_repo :: NameWithOwner where
  "scenario_repo = \<lparr>owner = ''org'', repo = ''repo''\<rparr>"

definition issue_A :: Issue where
  "issue_A = \<lparr>title = ''A'', url = ''u1'', labels = \<lparr>Labels.nodes = []\<rparr>\<rparr>"

definition issue_B :: Issue where
  "issue_B = \<lparr>title = ''B'', url = ''u2'', labels = \<lparr>Labels.nodes = [\<lparr>name = ''bug''\<rparr>]\<rparr>\<rparr>"

definition page_1 :: QueryResponse where
  "page_1 = \<lparr>search = \<lparr>pageInfo = \<lparr>endCursor = ''c1'', hasNextPage = True\<rparr>,
                        nodes = [issue_A]\<rparr>\<rparr>"

definition page_2 :: QueryResponse where
  "page_2 = \<lparr>search = \<lparr>pageInfo = \<lparr>endCursor = ''c2'', hasNextPage = False\<rparr>,
                        nodes = [issue_B]\<rparr>\<rparr>"

section \<open>Basic facts about the loop\<close>

lemma while_done:
  "while_hasNextPage graphql qt (c, False, acc) s = Some (Inr (c, False, acc), s)"
  by (subst while_hasNextPage.simps) simp

lemma while_page:
  assumes "graphql \<lparr>cursor = c, searchQuery = qt\<rparr> s = Some (Inr (Some r), s')"
  shows "while_hasNextPage graphql qt (c, True, acc) s =
         while_hasNextPage graphql qt
           (Some (endCursor (pageInfo (search r))), hasNextPage (pageInfo (search r)),
            acc @ nodes (search r)) s'"
  by (subst while_hasNextPage.simps) (simp add: loop_body_def assms)

lemma while_null:
  assumes "graphql \<lparr>cursor = c, searchQuery = qt\<rparr> s = Some (Inr None, s')"
  shows "while_hasNextPage graphql qt (c, True, acc) s = Some (Inr (c, False, acc), s')"
  by (subst while_hasNextPage.simps) (simp add: loop_body_def assms while_done)

lemma while_throw:
  assumes "graphql \<lparr>cursor = c, searchQuery = qt\<rparr> s = Some (Inl err, s')"
  shows "while_hasNextPage graphql qt (c, True, acc) s = Some (Inl err, s')"
  by (subst while_hasNextPage.simps) (simp add: loop_body_def assms)

lemma while_pending:
  assumes "graphql \<lparr>cursor = c, searchQuery = qt\<rparr> s = None"
  shows "while_hasNextPage graphql qt (c, True, acc) s = None"
  by (subst while_hasNextPage.simps) (simp add: loop_body_def assms)

lemma iterations_while:
  "iterations n graphql qt vars s = Some r \<Longrightarrow> finished r \<Longrightarrow>
   while_hasNextPage graphql qt vars s = Some r"
proof (induction n arbitrary: vars s)
  case 0
  then show ?case
    by (cases vars) (auto simp: while_done)
next
  case (Suc n)
  show ?case
  proof (cases "fst (snd vars)")
    case False
    with Suc.prems show ?thesis
      by (subst while_hasNextPage.simps) simp
  next
    case True
    with Suc.prems Suc.IH show ?thesis
      by (subst while_hasNextPage.simps)
         (auto split: option.splits sum.splits)
  qed
qed

lemma while_iterations:
  assumes ret: "while_hasNextPage (graphql0 :: ('s, 'e) GitHubClient) qt0 vars0 s0 = Some r0"
  shows "\<exists>n. iterations n graphql0 qt0 vars0 s0 = Some r0 \<and> finished r0"
proof (rule while_hasNextPage.raw_induct
    [where P = "\<lambda>g q v s r. \<exists>n. iterations n g q v s = Some r \<and> finished r", OF _ ret])
  fix w :: "('s, 'e) GitHubClient \<Rightarrow> string \<Rightarrow> locals \<Rightarrow> 's \<Rightarrow> (('e + locals) \<times> 's) option"
  fix graphql qt vars s r
  assume IH: "\<And>g q v s r. w g q v s = Some r \<Longrightarrow>
                \<exists>n. iterations n g q v s = Some r \<and> finished r"
  assume eq: "(if fst (snd vars)
      then case loop_body graphql qt vars s of None \<Rightarrow> None
           | Some (Inl err, s') \<Rightarrow> Some (Inl err, s')
           | Some (Inr vars', s') \<Rightarrow> w graphql qt vars' s'
      else Some (Inr vars, s)) = Some r"
  note 1 = IH eq
  show "\<exists>n. iterations n graphql qt vars s = Some r \<and> finished r"
  proof (cases "fst (snd vars)")
    case False
    with 1(2) have "iterations 0 graphql qt vars s = Some r \<and> finished r"
      by (cases vars) auto
    then show ?thesis by blast
  next
    case True
    show ?thesis
    proof (cases "loop_body graphql qt vars s")
      case None
      with True 1(2) show ?thesis by simp
    next
      case (Some a)
      obtain res s' where a: "a = (res, s')" by (cases a)
      show ?thesis
      proof (cases res)
        case (Inl err)
        with True Some a 1(2) have "iterations (Suc 0) graphql qt vars s = Some r \<and> finished r"
          by auto
        then show ?thesis by blast
      next
        case (Inr vars')
        with True Some a 1(2) have "w graphql qt vars' s' = Some r" by simp
        from 1(1)[OF this] obtain n where "iterations n graphql qt vars' s' = Some r \<and> finished r"
          by blast
        with True Some a Inr have "iterations (Suc n) graphql qt vars s = Some r \<and> finished r"
          by simp
        then show ?thesis by blast
      qed
    qed
  qed
qed


lemma loop_body_spy:
  "loop_body (spy graphql) qt (c, h, acc) (s, calls) =
     (case graphql \<lparr>cursor = c, searchQuery = qt\<rparr> s of
        None \<Rightarrow> None
      | Some (out, s') \<Rightarrow>
          Some (case out of
                  Inl err \<Rightarrow> Inl err
                | Inr None \<Rightarrow> Inr (c, False, acc)
                | Inr (Some r) \<Rightarrow>
                    Inr (Some (endCursor (pageInfo (search r))),
                         hasNextPage (pageInfo (search r)), acc @ nodes (search r)),
                (s', calls @ [(\<lparr>cursor = c, searchQuery = qt\<rparr>, out)])))"
  by (simp add: loop_body_def spy_def split: option.splits sum.splits)

lemma iterations_spy_cases:
  assumes "iterations (Suc n) (spy graphql) qt (c, True, acc) (s, calls) = Some (res, w)"
  obtains
    (throw) err s' where
      "graphql \<lparr>cursor = c, searchQuery = qt\<rparr> s = Some (Inl err, s')"
      "res = Inl err" "w = (s', calls @ [(\<lparr>cursor = c, searchQuery = qt\<rparr>, Inl err)])"
  | (null) s' where
      "graphql \<lparr>cursor = c, searchQuery = qt\<rparr> s = Some (Inr None, s')"
      "iterations n (spy graphql) qt (c, False, acc)
         (s', calls @ [(\<lparr>cursor = c, searchQuery = qt\<rparr>, Inr None)]) = Some (res, w)"
  | (page) r s' where
      "graphql \<lparr>cursor = c, searchQuery = qt\<rparr> s = Some (Inr (Some r), s')"
      "iterations n (spy graphql) qt
         (Some (endCursor (pageInfo (search r))), hasNextPage (pageInfo (search r)),
          acc @ nodes (search r))
         (s', calls @ [(\<lparr>cursor = c, searchQuery = qt\<rparr>, Inr (Some r))]) = Some (res, w)"
proof (cases "graphql \<lparr>cursor = c, searchQuery = qt\<rparr> s")
  case None
  with assms show thesis by (simp add: loop_body_spy)
next
  case (Some a)
  obtain out s' where a: "a = (out, s')" by (cases a)
  show thesis
  proof (cases out)
    case (Inl err)
    with assms Some a show thesis by (intro throw[of err s']) (simp_all add: loop_body_spy)
  next
    case (Inr resp)
    show thesis
    proof (cases resp)
      case None
      with Inr assms Some a show thesis by (intro null[of s']) (simp_all add: loop_body_spy)
    next
      case (Some r)
      with Inr assms \<open>graphql \<lparr>cursor = c, searchQuery = qt\<rparr> s = Some a\<close> a show thesis
        by (intro page[of r s']) (simp_all add: loop_body_spy)
    qed
  qed
qed

lemma iterations_stopped:
  "iterations n graphql qt (c, False, acc) s = Some (Inr (c, False, acc), s)"
  by (cases n) simp_all


lemma iterations_spy_query:
  assumes "iterations n (spy graphql) qt (c, h, acc) (s, calls) = Some (res, (s', calls'))"
    and "\<forall>x\<in>set calls. searchQuery (fst x) = qt"
  shows "\<forall>x\<in>set calls'. searchQuery (fst x) = qt"
  using assms
proof (induction n arbitrary: c h acc s calls)
  case 0
  then show ?case by simp
next
  case (Suc n)
  show ?case
  proof (cases h)
    case False
    with Suc.prems show ?thesis by simp
  next
    case True
    with Suc.prems(1)
    have "iterations (Suc n) (spy graphql) qt (c, True, acc) (s, calls) = Some (res, (s', calls'))"
      by simp
    then show ?thesis
    proof (cases rule: iterations_spy_cases)
      case (throw err s1)
      with Suc.prems(2) show ?thesis by simp
    next
      case (null s1)
      from Suc.IH[OF null(2)] Suc.prems(2) show ?thesis by simp
    next
      case (page r s1)
      from Suc.IH[OF page(2)] Suc.prems(2) show ?thesis by simp
    qed
  qed
qed

lemma iterations_spy_issues:
  assumes "iterations n (spy graphql) qt (c, h, acc) (s, calls) = Some (Inr (c', h', acc'), (s', calls'))"
    and "acc = concat (map (\<lambda>x. received (snd x)) calls)"
  shows "acc' = concat (map (\<lambda>x. received (snd x)) calls')"
  using assms
proof (induction n arbitrary: c h acc s calls)
  case 0
  then show ?case by auto
next
  case (Suc n)
  show ?case
  proof (cases h)
    case False
    with Suc.prems show ?thesis by auto
  next
    case True
    with Suc.prems(1)
    have "iterations (Suc n) (spy graphql) qt (c, True, acc) (s, calls) =
            Some (Inr (c', h', acc'), (s', calls'))"
      by simp
    then show ?thesis
    proof (cases rule: iterations_spy_cases)
      case (throw err s1)
      then show ?thesis by simp
    next
      case (null s1)
      from Suc.IH[OF null(2)] Suc.prems(2) show ?thesis by simp
    next
      case (page r s1)
      from Suc.IH[OF page(2)] Suc.prems(2) show ?thesis by simp
    qed
  qed
qed

lemma cursor_inv_stop: "cursor_inv c h calls \<Longrightarrow> cursor_inv c' False calls"
  by (simp add: cursor_inv_def)

lemma cursor_inv_call:
  assumes "cursor_inv c True calls"
  shows "cursor_inv c' False (calls @ [(\<lparr>cursor = c, searchQuery = qt\<rparr>, out)])"
    and "cursor_inv (Some (endCursor (pageInfo (search r)))) h'
           (calls @ [(\<lparr>cursor = c, searchQuery = qt\<rparr>, Inr (Some r))])"
proof -
  have *: "cursor_inv c'' False (calls @ [(\<lparr>cursor = c, searchQuery = qt\<rparr>, out')])" for c'' out'
    unfolding cursor_inv_def
  proof (intro conjI allI impI)
    show "cursor (fst ((calls @ [(\<lparr>cursor = c, searchQuery = qt\<rparr>, out')]) ! 0)) = None"
      using assms by (cases calls) (auto simp: cursor_inv_def)
  next
    fix N
    assume N: "Suc N < length (calls @ [(\<lparr>cursor = c, searchQuery = qt\<rparr>, out')])"
    show "\<exists>r. snd ((calls @ [(\<lparr>cursor = c, searchQuery = qt\<rparr>, out')]) ! N) = Inr (Some r) \<and>
             cursor (fst ((calls @ [(\<lparr>cursor = c, searchQuery = qt\<rparr>, out')]) ! Suc N)) =
             Some (endCursor (pageInfo (search r)))"
    proof (cases "Suc N < length calls")
      case True
      with assms show ?thesis by (simp add: cursor_inv_def nth_append)
    next
      case False
      with N have eq: "Suc N = length calls" by simp
      then have ne: "calls \<noteq> []" by auto
      from eq have "calls ! N = last calls"
        by (metis ne diff_Suc_1 last_conv_nth)
      with assms ne eq show ?thesis
        by (auto simp: cursor_inv_def nth_append)
    qed
  next
    assume False then show "if calls @ [(\<lparr>cursor = c, searchQuery = qt\<rparr>, out')] = [] then c'' = None
           else \<exists>r. snd (last (calls @ [(\<lparr>cursor = c, searchQuery = qt\<rparr>, out')])) = Inr (Some r) \<and>
                    c'' = Some (endCursor (pageInfo (search r)))" by simp
  qed
  from * show "cursor_inv c' False (calls @ [(\<lparr>cursor = c, searchQuery = qt\<rparr>, out)])" .
  from *[of "Some (endCursor (pageInfo (search r)))" "Inr (Some r)"]
  show "cursor_inv (Some (endCursor (pageInfo (search r)))) h'
           (calls @ [(\<lparr>cursor = c, searchQuery = qt\<rparr>, Inr (Some r))])"
    by (simp add: cursor_inv_def)
qed

lemma iterations_spy_cursor:
  assumes "iterations n (spy graphql) qt (c, h, acc) (s, calls) = Some (res, (s', calls'))"
    and "cursor_inv c h calls"
  shows "cursor_inv None False calls'"
  using assms
proof (induction n arbitrary: c h acc s calls)
  case 0
  then show ?case by (auto intro: cursor_inv_stop)
next
  case (Suc n)
  show ?case
  proof (cases h)
    case False
    with Suc.prems show ?thesis by (auto intro: cursor_inv_stop)
  next
    case True
    with Suc.prems(2) have inv: "cursor_inv c True calls" by simp
    from True Suc.prems(1)
    have "iterations (Suc n) (spy graphql) qt (c, True, acc) (s, calls) = Some (res, (s', calls'))"
      by simp
    then show ?thesis
    proof (cases rule: iterations_spy_cases)
      case (throw err s1)
      with cursor_inv_call(1)[OF inv] show ?thesis by simp
    next
      case (null s1)
      from Suc.IH[OF null(2) cursor_inv_call(1)[OF inv]] show ?thesis .
    next
      case (page r s1)
      from Suc.IH[OF page(2) cursor_inv_call(2)[OF inv]] show ?thesis .
    qed
  qed
qed

section \<open>The simulated remote service\<close>

lemma while_replay_page:
  "while_hasNextPage replay qt (c, True, acc) (Inr (Some r) # rest) =
   while_hasNextPage replay qt
     (Some (endCursor (pageInfo (search r))), hasNextPage (pageInfo (search r)),
      acc @ nodes (search r)) rest"
  by (rule while_page) simp

lemma while_replay_null:
  "while_hasNextPage replay qt (c, True, acc) (Inr None # rest) = Some (Inr (c, False, acc), rest)"
  by (rule while_null) simp

lemma while_replay_throw:
  "while_hasNextPage replay qt (c, True, acc) (Inl err # rest) = Some (Inl err, rest)"
  by (rule while_throw) simp

lemma while_replay_pages:
  assumes "\<forall>p\<in>set pages. hasNextPage (pageInfo (search p))"
  shows "\<exists>c'. while_hasNextPage replay qt (c, True, acc) (map (\<lambda>p. Inr (Some p)) pages @ rest) =
              while_hasNextPage replay qt
                (c', True, acc @ concat (map (\<lambda>p. nodes (search p)) pages)) rest"
  using assms
proof (induction pages arbitrary: c acc)
  case Nil
  have "while_hasNextPage replay qt (c, True, acc) ([] @ rest) =
        while_hasNextPage replay qt (c, True, acc @ []) rest" by simp
  then show ?case by auto
next
  case (Cons p pages)
  from Cons.prems have more: "hasNextPage (pageInfo (search p))"
    and rest: "\<forall>p\<in>set pages. hasNextPage (pageInfo (search p))"
    by simp_all
  from Cons.IH[OF rest, of "Some (endCursor (pageInfo (search p)))" "acc @ nodes (search p)"]
  obtain c' where
    "while_hasNextPage replay qt
       (Some (endCursor (pageInfo (search p))), True, acc @ nodes (search p))
       (map (\<lambda>p. Inr (Some p)) pages @ rest) =
     while_hasNextPage replay qt
       (c', True, (acc @ nodes (search p)) @ concat (map (\<lambda>p. nodes (search p)) pages)) rest"
    by blast
  with more show ?case
    by (auto simp: while_replay_page)
qed

lemma getMatchingIssues_while:
  "getMatchingIssues getOctokit ctx token q s =
     (case while_hasNextPage (getOctokit token) (queryText ctx q) (None, True, []) s of
        None \<Rightarrow> None
      | Some (Inl err, s') \<Rightarrow> Some (Inl err, s')
      | Some (Inr vars, s') \<Rightarrow> Some (Inr (snd (snd vars)), s'))"
  by (simp add: getMatchingIssues_def split: option.splits sum.splits prod.splits)

lemma nonterminal_pages:
  assumes "\<forall>r\<in>set pre. \<not> terminal r"
  shows "map Inr pre = map (\<lambda>p. Inr (Some p)) (map the pre) \<and>
         (\<forall>p\<in>set (map the pre). hasNextPage (pageInfo (search p)))"
  using assms
proof (induction pre)
  case Nil
  then show ?case by simp
next
  case (Cons r pre)
  from Cons.prems obtain p where "r = Some p" "hasNextPage (pageInfo (search p))"
    by (cases r) simp_all
  with Cons show ?case by simp
qed

section \<open>What the calls of an execution look like\<close>

lemma getMatchingIssues_returns_upto:
  assumes "getMatchingIssues getOctokit ctx token q s = Some (res, s')"
  shows "\<exists>n r. getMatchingIssues_upto n getOctokit ctx token q s = Some (r, s') \<and>
               finished (r, s') \<and>
               res = (case r of Inl err \<Rightarrow> Inl err | Inr vars \<Rightarrow> Inr (snd (snd vars)))"
proof -
  from assms obtain r where
    w: "while_hasNextPage (getOctokit token) (queryText ctx q) (None, True, []) s = Some (r, s')"
    and res: "res = (case r of Inl err \<Rightarrow> Inl err | Inr vars \<Rightarrow> Inr (snd (snd vars)))"
    by (auto simp: getMatchingIssues_while split: option.splits sum.splits)
  from while_iterations[OF w] res show ?thesis
    unfolding getMatchingIssues_upto_def by blast
qed

lemma upto_returns_getMatchingIssues:
  assumes "getMatchingIssues_upto n getOctokit ctx token q s = Some (r, s')"
    and "finished (r, s')"
  shows "getMatchingIssues getOctokit ctx token q s =
           Some (case r of Inl err \<Rightarrow> Inl err | Inr vars \<Rightarrow> Inr (snd (snd vars)), s')"
  using iterations_while[OF assms(1)[unfolded getMatchingIssues_upto_def] assms(2)]
  by (simp add: getMatchingIssues_while split: sum.splits)

lemma cursor_inv_start: "cursor_inv None True []"
  by (simp add: cursor_inv_def)

lemma observed_cases:
  assumes "getMatchingIssues_upto n (\<lambda>token. spy (getOctokit token)) ctx token q (s, []) =
             Some (r, (s', calls)) \<or>
           getMatchingIssues (\<lambda>token. spy (getOctokit token)) ctx token q (s, []) =
             Some (res, (s', calls))"
  shows "\<exists>m r'. iterations m (spy (getOctokit token)) (queryText ctx q) (None, True, []) (s, []) =
                  Some (r', (s', calls))"
  using assms
proof
  assume "getMatchingIssues_upto n (\<lambda>token. spy (getOctokit token)) ctx token q (s, []) =
             Some (r, (s', calls))"
  then show ?thesis unfolding getMatchingIssues_upto_def by blast
next
  assume "getMatchingIssues (\<lambda>token. spy (getOctokit token)) ctx token q (s, []) =
             Some (res, (s', calls))"
  from getMatchingIssues_returns_upto[OF this] show ?thesis
    unfolding getMatchingIssues_upto_def by blast
qed

lemma observed_query:
  assumes "iterations m (spy graphql) qt (None, True, []) (s, []) = Some (r, (s', calls))"
  shows "\<forall>x\<in>set calls. searchQuery (fst x) = qt"
  using iterations_spy_query[OF assms] by simp

lemma queryText_eq: "queryText ctx q = ''repo:'' @ owner ctx @ ''/'' @ repo ctx @ '' '' @ q"
  by (simp add: queryText_def formatNameWithOwner_def)

lemma while_spy_replay_page:
  "while_hasNextPage (spy replay) qt (c, True, acc) (Inr (Some r) # rest, calls) =
   while_hasNextPage (spy replay) qt
     (Some (endCursor (pageInfo (search r))), hasNextPage (pageInfo (search r)),
      acc @ nodes (search r))
     (rest, calls @ [(\<lparr>cursor = c, searchQuery = qt\<rparr>, Inr (Some r))])"
  by (rule while_page) (simp add: spy_def)

lemma scenario_observed:
  "getMatchingIssues (\<lambda>token. spy replay) ctx token q
     ([Inr (Some page_1), Inr (Some page_2)], []) =
   Some (Inr [issue_A, issue_B],
         ([], [(\<lparr>cursor = None, searchQuery = queryText ctx q\<rparr>, Inr (Some page_1)),
               (\<lparr>cursor = Some ''c1'', searchQuery = queryText ctx q\<rparr>, Inr (Some page_2))]))"
proof -
  have 1: "endCursor (pageInfo (search page_1)) = ''c1''" "hasNextPage (pageInfo (search page_1))"
    "nodes (search page_1) = [issue_A]"
    by (simp_all add: page_1_def)
  have 2: "\<not> hasNextPage (pageInfo (search page_2))" "nodes (search page_2) = [issue_B]"
    by (simp_all add: page_2_def)
  show ?thesis
    by (simp add: getMatchingIssues_while while_spy_replay_page while_done 1 2)
qed

lemma count_list_concat:
  "count_list (concat xss) i = sum_list (map (\<lambda>xs. count_list xs i) xss)"
  by (induction xss) simp_all

lemma returned_issues:
  assumes "getMatchingIssues (\<lambda>token. spy (getOctokit token)) ctx token q (s, []) =
             Some (Inr acc, (s', calls))"
  shows "acc = concat (map (\<lambda>x. received (snd x)) calls)"
proof -
  from getMatchingIssues_returns_upto[OF assms] obtain n r where
    r: "getMatchingIssues_upto n (\<lambda>token. spy (getOctokit token)) ctx token q (s, []) =
          Some (r, (s', calls))"
    and acc: "Inr acc = (case r of Inl err \<Rightarrow> Inl err | Inr vars \<Rightarrow> Inr (snd (snd vars)))"
    by blast
  from acc obtain c h where "r = Inr (c, h, acc)"
    by (cases r) auto
  with r have "iterations n (spy (getOctokit token)) (queryText ctx q) (None, True, []) (s, []) =
                 Some (Inr (c, h, acc), (s', calls))"
    by (simp add: getMatchingIssues_upto_def)
  from iterations_spy_issues[OF this] show ?thesis by simp
qed

section \<open>Claims about sequences of responses\<close>

text \<open>
  C1. For pages \<open>P1 \<dots> Pn\<close> with \<^verbatim>\<open>hasNextPage = true\<close> on all but the last and
  \<^verbatim>\<open>hasNextPage = false\<close> on the last, \<^verbatim>\<open>getMatchingIssues\<close> returns the concatenation
  of the pages' issue lists, pages in the order of arrival and issues in the order of
  each page. Responses after the last page (\<open>rest\<close>) are not asked for.
\<close>

theorem getMatchingIssues_completeness:
  assumes "pages \<noteq> []"
    and "\<forall>p\<in>set (butlast pages). hasNextPage (pageInfo (search p))"
    and "\<not> hasNextPage (pageInfo (search (last pages)))"
  shows "getMatchingIssues (\<lambda>token. replay) ctx token q (map (\<lambda>p. Inr (Some p)) pages @ rest) =
         Some (Inr (concat (map (\<lambda>p. nodes (search p)) pages)), rest)"
proof -
  define qt where "qt = queryText ctx q"
  from assms(1) have split: "pages = butlast pages @ [last pages]" by simp
  from while_replay_pages[OF assms(2), of qt None "[]" "Inr (Some (last pages)) # rest"]
  obtain c' where
    "while_hasNextPage replay qt (None, True, [])
       (map (\<lambda>p. Inr (Some p)) (butlast pages) @ Inr (Some (last pages)) # rest) =
     while_hasNextPage replay qt
       (c', True, [] @ concat (map (\<lambda>p. nodes (search p)) (butlast pages)))
       (Inr (Some (last pages)) # rest)"
    by blast
  also have "\<dots> = Some (Inr (Some (endCursor (pageInfo (search (last pages)))), False,
                 concat (map (\<lambda>p. nodes (search p)) (butlast pages)) @ nodes (search (last pages))), rest)"
    using assms(3) by (simp add: while_replay_page while_done)
  also have "concat (map (\<lambda>p. nodes (search p)) (butlast pages)) @ nodes (search (last pages)) =
             concat (map (\<lambda>p. nodes (search p)) (butlast pages @ [last pages]))"
    by simp
  also have "map (\<lambda>p. Inr (Some p)) (butlast pages) @ Inr (Some (last pages)) # rest =
             map (\<lambda>p. Inr (Some p)) (butlast pages @ [last pages]) @ rest"
    by simp
  finally have "while_hasNextPage replay qt (None, True, []) (map (\<lambda>p. Inr (Some p)) pages @ rest) =
     Some (Inr (Some (endCursor (pageInfo (search (last pages)))), False,
                 concat (map (\<lambda>p. nodes (search p)) pages)), rest)"
    using split by simp
  then show ?thesis
    by (simp add: getMatchingIssues_while qt_def)
qed

theorem getMatchingIssues_completeness_witness:
  "[page_1, page_2] \<noteq> [] \<and>
   hasNextPage (pageInfo (search page_1)) \<and>
   \<not> hasNextPage (pageInfo (search (last [page_1, page_2]))) \<and>
   getMatchingIssues (\<lambda>token. replay :: (string settled list, string) GitHubClient)
     scenario_repo ''token'' '''' [Inr (Some page_1), Inr (Some page_2)] =
   Some (Inr [issue_A, issue_B], [])"
proof -
  have h1: "[page_1, page_2] \<noteq> []" by simp
  have h2: "\<forall>p\<in>set (butlast [page_1, page_2]). hasNextPage (pageInfo (search p))"
    by (simp add: page_1_def)
  have h3: "\<not> hasNextPage (pageInfo (search (last [page_1, page_2])))"
    by (simp add: page_2_def)
  have n: "concat (map (\<lambda>p. nodes (search p)) [page_1, page_2]) = [issue_A, issue_B]"
    by (simp add: page_1_def page_2_def)
  from getMatchingIssues_completeness
         [OF h1 h2 h3, of scenario_repo "''token''" "''''" "[] :: string settled list"]
  have "getMatchingIssues (\<lambda>token. replay :: (string settled list, string) GitHubClient)
          scenario_repo ''token'' '''' [Inr (Some page_1), Inr (Some page_2)] =
        Some (Inr [issue_A, issue_B], [])"
    unfolding n by simp
  moreover have "hasNextPage (pageInfo (search page_1))"
    by (simp add: page_1_def)
  ultimately show ?thesis using h1 h3 by blast
qed

text \<open>
  C4. A \<^verbatim>\<open>null\<close> response ends the pagination with a normal return: on the first call
  the result is the empty array, and after \<open>N - 1\<close> pages that each announced a next
  page the result is exactly the issues of these pages; no error is raised.
\<close>

theorem null_response_terminates:
  assumes "\<forall>p\<in>set pages. hasNextPage (pageInfo (search p))"
  shows "getMatchingIssues (\<lambda>token. replay) ctx token q (Inr None # rest) = Some (Inr [], rest) \<and>
         getMatchingIssues (\<lambda>token. replay) ctx token q
           (map (\<lambda>p. Inr (Some p)) pages @ Inr None # rest) =
         Some (Inr (concat (map (\<lambda>p. nodes (search p)) pages)), rest)"
proof -
  define qt where "qt = queryText ctx q"
  from while_replay_pages[OF assms, of qt None "[]" "Inr None # rest"]
  obtain c' where
    "while_hasNextPage replay qt (None, True, [])
       (map (\<lambda>p. Inr (Some p)) pages @ Inr None # rest) =
     while_hasNextPage replay qt
       (c', True, [] @ concat (map (\<lambda>p. nodes (search p)) pages)) (Inr None # rest)"
    by blast
  then have "getMatchingIssues (\<lambda>token. replay) ctx token q
           (map (\<lambda>p. Inr (Some p)) pages @ Inr None # rest) =
         Some (Inr (concat (map (\<lambda>p. nodes (search p)) pages)), rest)"
    by (simp add: getMatchingIssues_while qt_def while_replay_null)
  moreover have "getMatchingIssues (\<lambda>token. replay) ctx token q (Inr None # rest) = Some (Inr [], rest)"
    by (simp add: getMatchingIssues_while while_replay_null)
  ultimately show ?thesis by blast
qed

theorem null_response_terminates_witness:
  "hasNextPage (pageInfo (search page_1)) \<and>
   getMatchingIssues (\<lambda>token. replay :: (string settled list, string) GitHubClient)
     scenario_repo ''token'' '''' [Inr (Some page_1), Inr None, Inr (Some page_2)] =
   Some (Inr [issue_A], [Inr (Some page_2)])"
proof -
  have h: "\<forall>p\<in>set [page_1]. hasNextPage (pageInfo (search p))"
    by (simp add: page_1_def)
  have n: "concat (map (\<lambda>p. nodes (search p)) [page_1]) = [issue_A]"
    by (simp add: page_1_def)
  from null_response_terminates
         [OF h, of scenario_repo "''token''" "''''" "[Inr (Some page_2)] :: string settled list"]
  have "getMatchingIssues (\<lambda>token. replay :: (string settled list, string) GitHubClient)
          scenario_repo ''token'' '''' [Inr (Some page_1), Inr None, Inr (Some page_2)] =
        Some (Inr [issue_A], [Inr (Some page_2)])"
    unfolding n by simp
  with h show ?thesis by simp
qed

text \<open>
  C6. If a call throws, after any number of pages that each announced a next page,
  \<^verbatim>\<open>getMatchingIssues\<close> throws the same value and returns nothing: the issues
  collected so far are not part of the outcome.
\<close>

theorem error_propagates:
  assumes "\<forall>p\<in>set pages. hasNextPage (pageInfo (search p))"
  shows "getMatchingIssues (\<lambda>token. replay) ctx token q
           (map (\<lambda>p. Inr (Some p)) pages @ Inl err # rest) = Some (Inl err, rest)"
proof -
  define qt where "qt = queryText ctx q"
  from while_replay_pages[OF assms, of qt None "[]" "Inl err # rest"]
  obtain c' where
    "while_hasNextPage replay qt (None, True, [])
       (map (\<lambda>p. Inr (Some p)) pages @ Inl err # rest) =
     while_hasNextPage replay qt
       (c', True, [] @ concat (map (\<lambda>p. nodes (search p)) pages)) (Inl err # rest)"
    by blast
  then show ?thesis
    by (simp add: getMatchingIssues_while qt_def while_replay_throw)
qed

theorem error_propagates_witness:
  "hasNextPage (pageInfo (search page_1)) \<and>
   getMatchingIssues (\<lambda>token. replay) scenario_repo ''token'' ''''
     [Inr (Some page_1), Inl ''Bad credentials'', Inr (Some page_2)] =
   Some (Inl ''Bad credentials'', [Inr (Some page_2)])"
proof -
  have h: "\<forall>p\<in>set [page_1]. hasNextPage (pageInfo (search p))"
    by (simp add: page_1_def)
  from error_propagates
         [OF h, of scenario_repo "''token''" "''''" "''Bad credentials''" "[Inr (Some page_2)]"]
  have "getMatchingIssues (\<lambda>token. replay) scenario_repo ''token'' ''''
          [Inr (Some page_1), Inl ''Bad credentials'', Inr (Some page_2)] =
        Some (Inl ''Bad credentials'', [Inr (Some page_2)])"
    by simp
  with h show ?thesis by simp
qed

text \<open>
  C9. If the finite sequence of responses holds a response that is \<^verbatim>\<open>null\<close> or has
  \<^verbatim>\<open>hasNextPage = false\<close>, the loop ends and \<^verbatim>\<open>getMatchingIssues\<close> returns; the
  responses after the first such response are all still to come, so no call is made
  after it.
\<close>

theorem loop_terminates:
  assumes "\<exists>r\<in>set responses. terminal r"
  shows "\<exists>acc. getMatchingIssues (\<lambda>token. replay :: ('e settled list, 'e) GitHubClient)
                 ctx token q (map Inr responses) =
           Some (Inr acc, map Inr (tl (dropWhile (\<lambda>r. \<not> terminal r) responses)))"
proof -
  define qt where "qt = queryText ctx q"
  define pre where "pre = takeWhile (\<lambda>r. \<not> terminal r) responses"
  define post where "post = dropWhile (\<lambda>r. \<not> terminal r) responses"
  define pages where "pages = map the pre"
  from assms have ne: "post \<noteq> []"
    unfolding post_def by (simp add: dropWhile_eq_Nil_conv)
  then have "\<not> \<not> terminal (hd post)"
    unfolding post_def by (rule hd_dropWhile)
  then have t: "terminal (hd post)" by simp
  have "responses = pre @ post"
    unfolding pre_def post_def by simp
  also from ne have "post = hd post # tl post" by simp
  finally have resp: "responses = pre @ hd post # tl post" .
  have "\<forall>r\<in>set pre. \<not> terminal r"
    unfolding pre_def by (blast dest: set_takeWhileD)
  from nonterminal_pages[OF this]
  have pre: "(map Inr pre :: 'e settled list) = map (\<lambda>p. Inr (Some p)) pages"
    and more: "\<forall>p\<in>set pages. hasNextPage (pageInfo (search p))"
    unfolding pages_def by blast+
  have "(map Inr responses :: 'e settled list) = map Inr pre @ Inr (hd post) # map Inr (tl post)"
    by (subst resp) simp
  then have scr: "(map Inr responses :: 'e settled list) =
                  map (\<lambda>p. Inr (Some p)) pages @ Inr (hd post) # map Inr (tl post)"
    by (simp only: pre)
  from while_replay_pages[OF more, of qt None "[]" "Inr (hd post) # map Inr (tl post)"]
  obtain c' where run:
    "while_hasNextPage replay qt (None, True, []) (map Inr responses :: 'e settled list) =
     while_hasNextPage replay qt
       (c', True, [] @ concat (map (\<lambda>p. nodes (search p)) pages))
       (Inr (hd post) # map Inr (tl post))"
    unfolding scr by blast
  have "\<exists>vars. while_hasNextPage replay qt (None, True, [])
                  (map Inr responses :: 'e settled list) =
          Some (Inr vars, map Inr (tl post))"
  proof (cases "hd post")
    case None
    with run show ?thesis by (auto simp: while_replay_null)
  next
    case (Some p)
    with t run show ?thesis by (auto simp: while_replay_page while_done)
  qed
  then obtain vars where
    "while_hasNextPage replay qt (None, True, []) (map Inr responses :: 'e settled list) =
       Some (Inr vars, map Inr (tl post))" by blast
  then have "getMatchingIssues (\<lambda>token. replay) ctx token q
               (map Inr responses :: 'e settled list) =
       Some (Inr (snd (snd vars)), map Inr (tl post))"
    by (simp add: getMatchingIssues_while qt_def)
  then show ?thesis
    unfolding post_def by blast
qed

theorem loop_terminates_witness:
  "(\<exists>r\<in>set [Some page_1, Some page_2, Some page_1, None]. terminal r) \<and>
   (\<exists>acc. getMatchingIssues (\<lambda>token. replay :: (string settled list, string) GitHubClient)
           scenario_repo ''token'' ''''
           [Inr (Some page_1), Inr (Some page_2), Inr (Some page_1), Inr None] =
         Some (Inr acc, [Inr (Some page_1), Inr None]))"
proof -
  have t: "\<exists>r\<in>set [Some page_1, Some page_2, Some page_1, None]. terminal r"
    by simp
  have d: "tl (dropWhile (\<lambda>r. \<not> terminal r) [Some page_1, Some page_2, Some page_1, None]) =
           [Some page_1, None]"
    by (simp add: page_1_def page_2_def)
  from loop_terminates [OF t, of scenario_repo "''token''" "''''", where ?'e = string]
  have "\<exists>acc. getMatchingIssues (\<lambda>token. replay :: (string settled list, string) GitHubClient)
           scenario_repo ''token'' ''''
           [Inr (Some page_1), Inr (Some page_2), Inr (Some page_1), Inr None] =
         Some (Inr acc, [Inr (Some page_1), Inr None])"
    unfolding d by simp
  with t show ?thesis by blast
qed

section \<open>Claims about every execution\<close>

text \<open>
  In the theorems of this section the client is any client, watched by \<open>spy\<close>; the log
  \<open>calls\<close> is what the client has been asked and has answered, either after some number
  of passes of the loop (\<open>getMatchingIssues_upto\<close>) or at the return.
\<close>

text \<open>
  C3. With owner \<^verbatim>\<open>acme\<close>, repository \<^verbatim>\<open>widgets\<close> and predicate
  \<^verbatim>\<open>is:open label:bug\<close>, the query text is exactly
  \<^verbatim>\<open>repo:acme/widgets is:open label:bug\<close>, and this is the \<^verbatim>\<open>searchQuery\<close> of every
  call made to the remote service.
\<close>

theorem query_construction:
  "queryText \<lparr>owner = ''acme'', repo = ''widgets''\<rparr> ''is:open label:bug'' =
     ''repo:acme/widgets is:open label:bug'' \<and>
   (getMatchingIssues_upto n (\<lambda>token. spy (getOctokit token))
      \<lparr>owner = ''acme'', repo = ''widgets''\<rparr> token ''is:open label:bug'' (s, []) =
      Some (r, (s', calls)) \<or>
    getMatchingIssues (\<lambda>token. spy (getOctokit token))
      \<lparr>owner = ''acme'', repo = ''widgets''\<rparr> token ''is:open label:bug'' (s, []) =
      Some (res, (s', calls))
    \<longrightarrow> (\<forall>x\<in>set calls. searchQuery (fst x) = ''repo:acme/widgets is:open label:bug''))"
proof (intro conjI impI)
  show q: "queryText \<lparr>owner = ''acme'', repo = ''widgets''\<rparr> ''is:open label:bug'' =
     ''repo:acme/widgets is:open label:bug''"
    by (simp add: queryText_eq)
  assume "getMatchingIssues_upto n (\<lambda>token. spy (getOctokit token))
      \<lparr>owner = ''acme'', repo = ''widgets''\<rparr> token ''is:open label:bug'' (s, []) =
      Some (r, (s', calls)) \<or>
    getMatchingIssues (\<lambda>token. spy (getOctokit token))
      \<lparr>owner = ''acme'', repo = ''widgets''\<rparr> token ''is:open label:bug'' (s, []) =
      Some (res, (s', calls))"
  from observed_cases[OF this] obtain m r' where
    "iterations m (spy (getOctokit token))
       (queryText \<lparr>owner = ''acme'', repo = ''widgets''\<rparr> ''is:open label:bug'')
       (None, True, []) (s, []) = Some (r', (s', calls))"
    by blast
  from observed_query[OF this] show
    "\<forall>x\<in>set calls. searchQuery (fst x) = ''repo:acme/widgets is:open label:bug''"
    unfolding q .
qed

theorem query_construction_witness:
  "getMatchingIssues (\<lambda>token. spy (replay :: (string settled list, string) GitHubClient))
     \<lparr>owner = ''acme'', repo = ''widgets''\<rparr> ''token'' ''is:open label:bug''
     ([Inr (Some page_1), Inr (Some page_2)], []) =
   Some (Inr [issue_A, issue_B],
         ([], [(\<lparr>cursor = None, searchQuery = ''repo:acme/widgets is:open label:bug''\<rparr>,
                Inr (Some page_1)),
               (\<lparr>cursor = Some ''c1'', searchQuery = ''repo:acme/widgets is:open label:bug''\<rparr>,
                Inr (Some page_2))])) \<and>
   list_all (\<lambda>x. searchQuery (fst x) = ''repo:acme/widgets is:open label:bug'')
     [(\<lparr>cursor = None, searchQuery = ''repo:acme/widgets is:open label:bug''\<rparr>,
       Inr (Some page_1) :: string settled),
      (\<lparr>cursor = Some ''c1'', searchQuery = ''repo:acme/widgets is:open label:bug''\<rparr>,
       Inr (Some page_2))]"
proof -
  have h: "getMatchingIssues (\<lambda>token. spy (replay :: (string settled list, string) GitHubClient))
     \<lparr>owner = ''acme'', repo = ''widgets''\<rparr> ''token'' ''is:open label:bug''
     ([Inr (Some page_1), Inr (Some page_2)], []) =
   Some (Inr [issue_A, issue_B],
         ([], [(\<lparr>cursor = None, searchQuery = ''repo:acme/widgets is:open label:bug''\<rparr>,
                Inr (Some page_1)),
               (\<lparr>cursor = Some ''c1'', searchQuery = ''repo:acme/widgets is:open label:bug''\<rparr>,
                Inr (Some page_2))]))"
    unfolding scenario_observed by (simp add: queryText_eq)
  from query_construction
         [where getOctokit = "\<lambda>token. replay :: (string settled list, string) GitHubClient"
            and token = "''token''" and s = "[Inr (Some page_1), Inr (Some page_2)]"
            and res = "Inr [issue_A, issue_B]" and s' = "[]"
            and calls = "[(\<lparr>cursor = None, searchQuery = ''repo:acme/widgets is:open label:bug''\<rparr>,
                Inr (Some page_1)),
               (\<lparr>cursor = Some ''c1'', searchQuery = ''repo:acme/widgets is:open label:bug''\<rparr>,
                Inr (Some page_2))]"]
    h
  show ?thesis unfolding list_all_iff by blast
qed

text \<open>
  C5. In every execution the first call has no cursor (\<^verbatim>\<open>null\<close>), and the cursor of
  call \<open>N + 1\<close> is the \<^verbatim>\<open>endCursor\<close> of the page that call \<open>N\<close> returned.
\<close>

theorem cursor_propagation:
  assumes "getMatchingIssues_upto n (\<lambda>token. spy (getOctokit token)) ctx token q (s, []) =
             Some (r, (s', calls)) \<or>
           getMatchingIssues (\<lambda>token. spy (getOctokit token)) ctx token q (s, []) =
             Some (res, (s', calls))"
  shows "(calls \<noteq> [] \<longrightarrow> cursor (fst (calls ! 0)) = None) \<and>
         (\<forall>N. Suc N < length calls \<longrightarrow>
            (\<exists>p. snd (calls ! N) = Inr (Some p) \<and>
                 cursor (fst (calls ! Suc N)) = Some (endCursor (pageInfo (search p)))))"
proof -
  from observed_cases[OF assms] obtain m r' where
    "iterations m (spy (getOctokit token)) (queryText ctx q) (None, True, []) (s, []) =
       Some (r', (s', calls))"
    by blast
  from iterations_spy_cursor[OF this cursor_inv_start]
  have "cursor_inv None False calls" .
  then show ?thesis
    unfolding cursor_inv_def by blast
qed

theorem cursor_propagation_witness:
  "getMatchingIssues (\<lambda>token. spy (replay :: (string settled list, string) GitHubClient))
     scenario_repo ''token'' '''' ([Inr (Some page_1), Inr (Some page_2)], []) =
   Some (Inr [issue_A, issue_B],
         ([], [(\<lparr>cursor = None, searchQuery = ''repo:org/repo ''\<rparr>, Inr (Some page_1)),
               (\<lparr>cursor = Some ''c1'', searchQuery = ''repo:org/repo ''\<rparr>, Inr (Some page_2))])) \<and>
   cursor (fst ([(\<lparr>cursor = None, searchQuery = ''repo:org/repo ''\<rparr>,
                  Inr (Some page_1) :: string settled),
                 (\<lparr>cursor = Some ''c1'', searchQuery = ''repo:org/repo ''\<rparr>, Inr (Some page_2))]
                ! 0)) = None \<and>
   (\<exists>p. snd ([(\<lparr>cursor = None, searchQuery = ''repo:org/repo ''\<rparr>,
                  Inr (Some page_1) :: string settled),
                 (\<lparr>cursor = Some ''c1'', searchQuery = ''repo:org/repo ''\<rparr>, Inr (Some page_2))]
                ! 0) = Inr (Some p) \<and>
        cursor (fst ([(\<lparr>cursor = None, searchQuery = ''repo:org/repo ''\<rparr>,
                  Inr (Some page_1) :: string settled),
                 (\<lparr>cursor = Some ''c1'', searchQuery = ''repo:org/repo ''\<rparr>, Inr (Some page_2))]
                ! Suc 0)) = Some (endCursor (pageInfo (search p))))"
proof -
  define calls :: "(Variables \<times> string settled) list" where
    "calls = [(\<lparr>cursor = None, searchQuery = ''repo:org/repo ''\<rparr>, Inr (Some page_1)),
              (\<lparr>cursor = Some ''c1'', searchQuery = ''repo:org/repo ''\<rparr>, Inr (Some page_2))]"
  have h: "getMatchingIssues (\<lambda>token. spy (replay :: (string settled list, string) GitHubClient))
     scenario_repo ''token'' '''' ([Inr (Some page_1), Inr (Some page_2)], []) =
   Some (Inr [issue_A, issue_B], ([], calls))"
    unfolding scenario_observed calls_def by (simp add: queryText_eq scenario_repo_def)
  have l: "calls \<noteq> []" "Suc 0 < length calls"
    by (simp_all add: calls_def)
  from cursor_propagation [OF disjI2, OF h] l
  have "cursor (fst (calls ! 0)) = None \<and>
        (\<exists>p. snd (calls ! 0) = Inr (Some p) \<and>
             cursor (fst (calls ! Suc 0)) = Some (endCursor (pageInfo (search p))))"
    by blast
  with h show ?thesis
    unfolding calls_def by blast
qed

text \<open>
  C7. If the first call returns a page with \<^verbatim>\<open>hasNextPage = false\<close>, exactly one call
  is made and the result is exactly the issues of that page.
\<close>

theorem single_page:
  assumes "getOctokit token \<lparr>cursor = None, searchQuery = queryText ctx q\<rparr> s =
             Some (Inr (Some p), s')"
    and "\<not> hasNextPage (pageInfo (search p))"
  shows "getMatchingIssues (\<lambda>token. spy (getOctokit token)) ctx token q (s, []) =
           Some (Inr (nodes (search p)),
                 (s', [(\<lparr>cursor = None, searchQuery = queryText ctx q\<rparr>, Inr (Some p))]))"
proof -
  have "spy (getOctokit token) \<lparr>cursor = None, searchQuery = queryText ctx q\<rparr> (s, []) =
          Some (Inr (Some p),
                (s', [] @ [(\<lparr>cursor = None, searchQuery = queryText ctx q\<rparr>, Inr (Some p))]))"
    by (simp add: spy_def assms(1))
  from while_page[where graphql = "spy (getOctokit token)" and c = None
      and qt = "queryText ctx q" and s = "(s, [])" and r = p and acc = "[]", OF this] assms(2)
  show ?thesis
    by (simp add: getMatchingIssues_while while_done)
qed

theorem single_page_witness:
  "replay \<lparr>cursor = None, searchQuery = queryText scenario_repo ''''\<rparr>
     [Inr (Some page_2), Inr (Some page_1) :: string settled] =
     Some (Inr (Some page_2), [Inr (Some page_1)]) \<and>
   \<not> hasNextPage (pageInfo (search page_2)) \<and>
   getMatchingIssues (\<lambda>token. spy replay) scenario_repo ''token'' ''''
     ([Inr (Some page_2), Inr (Some page_1) :: string settled], []) =
   Some (Inr [issue_B],
         ([Inr (Some page_1)],
          [(\<lparr>cursor = None, searchQuery = queryText scenario_repo ''''\<rparr>, Inr (Some page_2))]))"
proof -
  have h1: "replay \<lparr>cursor = None, searchQuery = queryText scenario_repo ''''\<rparr>
     [Inr (Some page_2), Inr (Some page_1) :: string settled] =
     Some (Inr (Some page_2), [Inr (Some page_1)])"
    by simp
  have h2: "\<not> hasNextPage (pageInfo (search page_2))"
    by (simp add: page_2_def)
  have n: "nodes (search page_2) = [issue_B]"
    by (simp add: page_2_def)
  from single_page [where getOctokit = "\<lambda>token. replay" and token = "''token''", OF h1 h2]
  have "getMatchingIssues (\<lambda>token. spy replay) scenario_repo ''token'' ''''
     ([Inr (Some page_2), Inr (Some page_1) :: string settled], []) =
   Some (Inr [issue_B],
         ([Inr (Some page_1)],
          [(\<lparr>cursor = None, searchQuery = queryText scenario_repo ''''\<rparr>, Inr (Some page_2))]))"
    unfolding n .
  with h1 h2 show ?thesis by blast
qed

text \<open>
  C8. The length of the returned array is the sum of the lengths of the issue lists of
  all pages received, and nothing is removed: an issue occurs in the result as often as
  it occurs in all the pages together.
\<close>

theorem accumulator_length:
  assumes "getMatchingIssues (\<lambda>token. spy (getOctokit token)) ctx token q (s, []) =
             Some (Inr acc, (s', calls))"
  shows "length acc = sum_list (map (\<lambda>x. length (received (snd x))) calls) \<and>
         (\<forall>i. count_list acc i = sum_list (map (\<lambda>x. count_list (received (snd x)) i) calls))"
proof -
  note acc = returned_issues[OF assms]
  have "length acc = sum_list (map (\<lambda>x. length (received (snd x))) calls)"
    unfolding acc by (simp add: length_concat comp_def)
  moreover have "count_list acc i = sum_list (map (\<lambda>x. count_list (received (snd x)) i) calls)" for i
    unfolding acc by (simp add: count_list_concat comp_def)
  ultimately show ?thesis by blast
qed

theorem accumulator_length_witness:
  "getMatchingIssues (\<lambda>token. spy (replay :: (string settled list, string) GitHubClient))
     scenario_repo ''token'' '''' ([Inr (Some page_1), Inr (Some page_1), Inr None], []) =
   Some (Inr [issue_A, issue_A],
         ([], [(\<lparr>cursor = None, searchQuery = ''repo:org/repo ''\<rparr>, Inr (Some page_1)),
               (\<lparr>cursor = Some ''c1'', searchQuery = ''repo:org/repo ''\<rparr>, Inr (Some page_1)),
               (\<lparr>cursor = Some ''c1'', searchQuery = ''repo:org/repo ''\<rparr>, Inr None)])) \<and>
   length [issue_A, issue_A] = 2 \<and> count_list [issue_A, issue_A] issue_A = 2"
proof -
  define calls :: "(Variables \<times> string settled) list" where
    "calls = [(\<lparr>cursor = None, searchQuery = ''repo:org/repo ''\<rparr>, Inr (Some page_1)),
              (\<lparr>cursor = Some ''c1'', searchQuery = ''repo:org/repo ''\<rparr>, Inr (Some page_1)),
              (\<lparr>cursor = Some ''c1'', searchQuery = ''repo:org/repo ''\<rparr>, Inr None)]"
  have 1: "endCursor (pageInfo (search page_1)) = ''c1''" "hasNextPage (pageInfo (search page_1))"
    "nodes (search page_1) = [issue_A]"
    by (simp_all add: page_1_def)
  have w: "while_hasNextPage (spy replay) qt (c, True, acc) (Inr None # rest, cs) =
           Some (Inr (c, False, acc), (rest, cs @ [(\<lparr>cursor = c, searchQuery = qt\<rparr>, Inr None)]))"
    for qt c acc cs and rest :: "string settled list"
    by (rule while_null) (simp add: spy_def)
  have h: "getMatchingIssues (\<lambda>token. spy (replay :: (string settled list, string) GitHubClient))
     scenario_repo ''token'' '''' ([Inr (Some page_1), Inr (Some page_1), Inr None], []) =
   Some (Inr [issue_A, issue_A], ([], calls))"
    unfolding calls_def
    by (simp add: getMatchingIssues_while while_spy_replay_page w 1 queryText_eq scenario_repo_def)
  have s: "sum_list (map (\<lambda>x. length (received (snd x))) calls) = 2"
    "sum_list (map (\<lambda>x. count_list (received (snd x)) issue_A) calls) = 2"
    by (simp_all add: calls_def 1)
  from accumulator_length [OF h] s
  have "length [issue_A, issue_A] = 2 \<and> count_list [issue_A, issue_A] issue_A = 2"
    by simp
  with h show ?thesis
    unfolding calls_def by blast
qed

text \<open>
  C10. With the empty predicate the query text is \<^verbatim>\<open>repo:<owner>/<repo>\<close> followed by one
  space, and this is the \<^verbatim>\<open>searchQuery\<close> of every call: the space is written whether or
  not a predicate follows.
\<close>

theorem empty_predicate_query:
  "queryText ctx '''' = ''repo:'' @ owner ctx @ ''/'' @ repo ctx @ '' '' \<and>
   (getMatchingIssues_upto n (\<lambda>token. spy (getOctokit token)) ctx token '''' (s, []) =
      Some (r, (s', calls)) \<or>
    getMatchingIssues (\<lambda>token. spy (getOctokit token)) ctx token '''' (s, []) =
      Some (res, (s', calls))
    \<longrightarrow> (\<forall>x\<in>set calls. searchQuery (fst x) = ''repo:'' @ owner ctx @ ''/'' @ repo ctx @ '' ''))"
proof (intro conjI impI)
  show q: "queryText ctx '''' = ''repo:'' @ owner ctx @ ''/'' @ repo ctx @ '' ''"
    by (simp add: queryText_eq)
  assume "getMatchingIssues_upto n (\<lambda>token. spy (getOctokit token)) ctx token '''' (s, []) =
      Some (r, (s', calls)) \<or>
    getMatchingIssues (\<lambda>token. spy (getOctokit token)) ctx token '''' (s, []) =
      Some (res, (s', calls))"
  from observed_cases[OF this] obtain m r' where
    "iterations m (spy (getOctokit token)) (queryText ctx '''') (None, True, []) (s, []) =
       Some (r', (s', calls))"
    by blast
  from observed_query[OF this] show
    "\<forall>x\<in>set calls. searchQuery (fst x) = ''repo:'' @ owner ctx @ ''/'' @ repo ctx @ '' ''"
    unfolding q .
qed

theorem empty_predicate_query_witness:
  "getMatchingIssues (\<lambda>token. spy (replay :: (string settled list, string) GitHubClient))
     scenario_repo ''token'' '''' ([Inr (Some page_1), Inr (Some page_2)], []) =
   Some (Inr [issue_A, issue_B],
         ([], [(\<lparr>cursor = None, searchQuery = ''repo:org/repo ''\<rparr>, Inr (Some page_1)),
               (\<lparr>cursor = Some ''c1'', searchQuery = ''repo:org/repo ''\<rparr>, Inr (Some page_2))])) \<and>
   list_all (\<lambda>x. searchQuery (fst x) = ''repo:org/repo '')
     [(\<lparr>cursor = None, searchQuery = ''repo:org/repo ''\<rparr>, Inr (Some page_1) :: string settled),
      (\<lparr>cursor = Some ''c1'', searchQuery = ''repo:org/repo ''\<rparr>, Inr (Some page_2))]"
proof -
  have h: "getMatchingIssues (\<lambda>token. spy (replay :: (string settled list, string) GitHubClient))
     scenario_repo ''token'' '''' ([Inr (Some page_1), Inr (Some page_2)], []) =
   Some (Inr [issue_A, issue_B],
         ([], [(\<lparr>cursor = None, searchQuery = ''repo:org/repo ''\<rparr>, Inr (Some page_1)),
               (\<lparr>cursor = Some ''c1'', searchQuery = ''repo:org/repo ''\<rparr>, Inr (Some page_2))]))"
    unfolding scenario_observed by (simp add: queryText_eq scenario_repo_def)
  have q: "''repo:'' @ owner scenario_repo @ ''/'' @ repo scenario_repo @ '' '' = ''repo:org/repo ''"
    by (simp add: scenario_repo_def)
  from empty_predicate_query
         [where getOctokit = "\<lambda>token. replay :: (string settled list, string) GitHubClient"
            and ctx = scenario_repo
            and token = "''token''" and s = "[Inr (Some page_1), Inr (Some page_2)]"
            and res = "Inr [issue_A, issue_B]" and s' = "[]"
            and calls = "[(\<lparr>cursor = None, searchQuery = ''repo:org/repo ''\<rparr>, Inr (Some page_1)),
               (\<lparr>cursor = Some ''c1'', searchQuery = ''repo:org/repo ''\<rparr>, Inr (Some page_2))]"]
    h
  show ?thesis unfolding q list_all_iff by blast
qed

section \<open>The shape of the labels\<close>

text \<open>
  C2 says that the \<^verbatim>\<open>labels\<close> attribute of every returned issue is a sequence of text
  values, \<^verbatim>\<open>["bug"]\<close> for the second issue of the scenario. In the source the attribute
  is an object with a field \<^verbatim>\<open>nodes\<close>, an array of objects with a field \<^verbatim>\<open>name\<close>, and
  \<^verbatim>\<open>results.search.nodes.map((issue) => issue)\<close> hands every issue on as it came. For the
  scenario the attribute is \<^verbatim>\<open>{nodes: [{name: "bug"}]}\<close>: not an array, and not equal to
  \<^verbatim>\<open>["bug"]\<close>.
\<close>

theorem labels_text_sequence_counterexample:
  "getMatchingIssues (replay_getOctokit :: string \<Rightarrow> (string settled list, string) GitHubClient)
     scenario_repo ''token'' '''' [Inr (Some page_1), Inr (Some page_2)] =
     Some (Inr [issue_A, issue_B], []) \<and>
   attribute (Issue_value issue_B) ''labels'' =
     Some (JObject [(''nodes'', JArray [JObject [(''name'', JString ''bug'')]])]) \<and>
   attribute (Issue_value issue_B) ''labels'' \<noteq> Some (JArray [JString ''bug'']) \<and>
   \<not> is_text_sequence (JObject [(''nodes'', JArray [JObject [(''name'', JString ''bug'')]])])"
proof -
  have 1: "hasNextPage (pageInfo (search page_1))" "nodes (search page_1) = [issue_A]"
    by (simp_all add: page_1_def)
  have 2: "\<not> hasNextPage (pageInfo (search page_2))" "nodes (search page_2) = [issue_B]"
    by (simp_all add: page_2_def)
  have "getMatchingIssues (replay_getOctokit :: string \<Rightarrow> (string settled list, string) GitHubClient)
     scenario_repo ''token'' '''' [Inr (Some page_1), Inr (Some page_2)] =
     Some (Inr [issue_A, issue_B], [])"
    by (simp add: getMatchingIssues_while replay_getOctokit_def while_replay_page while_done 1 2)
  moreover have "attribute (Issue_value issue_B) ''labels'' =
     Some (JObject [(''nodes'', JArray [JObject [(''name'', JString ''bug'')]])])"
    by (simp add: Issue_value_def Labels_value_def Label_value_def issue_B_def)
  ultimately show ?thesis by simp
qed

text \<open>
  C2, as the source has it. Every issue of the returned array is an issue of a page
  received from the remote service, and its \<^verbatim>\<open>labels\<close> attribute is an object whose
  field \<^verbatim>\<open>nodes\<close> is the ordered sequence of objects \<^verbatim>\<open>{name: <text>}\<close>, one for each
  label: the label names are \<^verbatim>\<open>labels.nodes[].name\<close>.
\<close>

theorem issues_passed_through:
  assumes "getMatchingIssues (\<lambda>token. spy (getOctokit token)) ctx token q (s, []) =
             Some (Inr acc, (s', calls))"
    and "i \<in> set acc"
  shows "(\<exists>x\<in>set calls. i \<in> set (received (snd x))) \<and>
         attribute (Issue_value i) ''labels'' =
           Some (JObject [(''nodes'',
                   JArray (map (\<lambda>l. JObject [(''name'', JString (name l))])
                             (Labels.nodes (labels i))))])"
proof -
  from assms(2) have "\<exists>x\<in>set calls. i \<in> set (received (snd x))"
    unfolding returned_issues[OF assms(1)] by auto
  moreover have "attribute (Issue_value i) ''labels'' =
           Some (JObject [(''nodes'',
                   JArray (map (\<lambda>l. JObject [(''name'', JString (name l))])
                             (Labels.nodes (labels i))))])"
    by (simp add: Issue_value_def Labels_value_def Label_value_def)
  ultimately show ?thesis by blast
qed

theorem issues_passed_through_witness:
  "getMatchingIssues (\<lambda>token. spy (replay :: (string settled list, string) GitHubClient))
     scenario_repo ''token'' '''' ([Inr (Some page_1), Inr (Some page_2)], []) =
   Some (Inr [issue_A, issue_B],
         ([], [(\<lparr>cursor = None, searchQuery = ''repo:org/repo ''\<rparr>, Inr (Some page_1)),
               (\<lparr>cursor = Some ''c1'', searchQuery = ''repo:org/repo ''\<rparr>, Inr (Some page_2))])) \<and>
   issue_B \<in> set [issue_A, issue_B] \<and>
   attribute (Issue_value issue_B) ''labels'' =
     Some (JObject [(''nodes'', JArray [JObject [(''name'', JString ''bug'')]])])"
proof -
  define calls :: "(Variables \<times> string settled) list" where
    "calls = [(\<lparr>cursor = None, searchQuery = ''repo:org/repo ''\<rparr>, Inr (Some page_1)),
              (\<lparr>cursor = Some ''c1'', searchQuery = ''repo:org/repo ''\<rparr>, Inr (Some page_2))]"
  have h: "getMatchingIssues (\<lambda>token. spy (replay :: (string settled list, string) GitHubClient))
     scenario_repo ''token'' '''' ([Inr (Some page_1), Inr (Some page_2)], []) =
   Some (Inr [issue_A, issue_B], ([], calls))"
    unfolding scenario_observed calls_def by (simp add: queryText_eq scenario_repo_def)
  have i: "issue_B \<in> set [issue_A, issue_B]" by simp
  have l: "map (\<lambda>l. JObject [(''name'', JString (name l))]) (Labels.nodes (labels issue_B)) =
           [JObject [(''name'', JString ''bug'')]]"
    by (simp add: issue_B_def)
  from issues_passed_through [OF h i]
  have "attribute (Issue_value issue_B) ''labels'' =
     Some (JObject [(''nodes'', JArray [JObject [(''name'', JString ''bug'')]])])"
    unfolding l by blast
  with h i show ?thesis
    unfolding calls_def by blast
qed

end
